theory Spec2Isabelle
  imports Main "HOL-Library.Word" "HOL-Library.Multiset"
begin

section \<open>Memory, pointers and machine integers\<close>

text \<open>
  The vector of \<^verbatim>\<open>vector.c\<close> keeps its elements in one heap block of raw bytes.
  The block is a list of bytes; its length is the size of the allocation. An access that
  leaves the block, a \<^verbatim>\<open>memcpy\<close> between overlapping regions, a signed overflow of
  an \<^verbatim>\<open>int\<close> counter and a conversion of an out-of-range \<^verbatim>\<open>double\<close> are
  undefined behaviour in C: the model returns \<open>Inl UndefinedBehaviour\<close> there.
  \<^verbatim>\<open>exit(1)\<close> after a failed \<^verbatim>\<open>realloc\<close> is \<open>Inl OutOfMemory\<close>.
\<close>

type_synonym byte = "8 word"

datatype error = OutOfMemory | UndefinedBehaviour

text \<open>\<^verbatim>\<open>size_t\<close> is 64 bits wide and unsigned, \<^verbatim>\<open>int\<close> is 32 bits wide.\<close>

definition INT_MAX :: int where
  "INT_MAX = 2147483647"

definition size_t_wrap :: "nat \<Rightarrow> nat" where
  "size_t_wrap n = n mod 2 ^ 64"

definition size_t_of_int :: "int \<Rightarrow> nat" where
  "size_t_of_int i = nat (i mod 2 ^ 64)"

definition int_of_size_t :: "nat \<Rightarrow> int" where
  "int_of_size_t n =
     (let m = int (n mod 2 ^ 32) in if m < 2 ^ 31 then m else m - 2 ^ 32)"

text \<open>
  A \<^verbatim>\<open>void *\<close> argument either points into the vector's own block (at a byte offset
  from \<^verbatim>\<open>vector->array\<close>) or at a separate object, given by its bytes.
\<close>

datatype pointer = Into_array nat | Object "byte list"

definition mem_read :: "byte list \<Rightarrow> nat \<Rightarrow> nat \<Rightarrow> error + byte list" where
  "mem_read block p n =
     (if p + n \<le> length block then Inr (take n (drop p block))
      else Inl UndefinedBehaviour)"

definition mem_write :: "byte list \<Rightarrow> nat \<Rightarrow> byte list \<Rightarrow> error + byte list" where
  "mem_write block p bs =
     (if p + length bs \<le> length block
      then Inr (take p block @ bs @ drop (p + length bs) block)
      else Inl UndefinedBehaviour)"

definition overlap :: "nat \<Rightarrow> nat \<Rightarrow> nat \<Rightarrow> bool" where
  "overlap p q n \<longleftrightarrow> 0 < n \<and> p < q + n \<and> q < p + n"

section \<open>The vector\<close>

record Vector =
  array :: "byte list"
  elem_size :: nat
  length_v :: nat
  capacity :: nat

definition deref :: "Vector \<Rightarrow> pointer \<Rightarrow> error + byte list" where
  "deref v p =
     (case p of
        Into_array q \<Rightarrow> mem_read (array v) q (elem_size v)
      | Object bs \<Rightarrow> mem_read bs 0 (elem_size v))"

text \<open>
  \<^verbatim>\<open>ceil(log(x) / log(2))\<close> is floating-point arithmetic of the C library. Its value,
  converted to \<^verbatim>\<open>int\<close>, is the parameter \<open>ceil_log2\<close> of the model.
\<close>

definition next_pow_2 :: "(int \<Rightarrow> int) \<Rightarrow> int \<Rightarrow> int" where
  "next_pow_2 ceil_log2 x = (if x \<le> 2 then 1 else ceil_log2 x)"

text \<open>\<^verbatim>\<open>(size_t) pow(2, n)\<close>: a negative exponent gives a value below 1, truncated to 0.\<close>

definition pow_2_size_t :: "int \<Rightarrow> error + nat" where
  "pow_2_size_t n =
     (if n < 0 then Inr 0
      else if n < 64 then Inr (2 ^ nat n)
      else Inl UndefinedBehaviour)"

text \<open>
  \<^verbatim>\<open>calloc\<close> and \<^verbatim>\<open>malloc\<close> are taken to succeed (the source does not test their
  results), except that \<^verbatim>\<open>calloc\<close> returns \<^verbatim>\<open>NULL\<close>, the empty block, when the byte
  count is not representable.
\<close>

definition calloc :: "nat \<Rightarrow> nat \<Rightarrow> byte list" where
  "calloc n sz = (if n * sz < 2 ^ 64 then replicate (n * sz) 0 else [])"

definition create_vector_with_capacity ::
    "(int \<Rightarrow> int) \<Rightarrow> nat \<Rightarrow> nat \<Rightarrow> error + Vector" where
  "create_vector_with_capacity ceil_log2 elem_sz initial_size =
     (case pow_2_size_t (next_pow_2 ceil_log2 (int_of_size_t initial_size)) of
        Inl e \<Rightarrow> Inl e
      | Inr actual_size \<Rightarrow>
          Inr \<lparr>array = calloc actual_size elem_sz, elem_size = elem_sz,
               length_v = 0, capacity = actual_size\<rparr>)"

definition create_vector :: "(int \<Rightarrow> int) \<Rightarrow> nat \<Rightarrow> error + Vector" where
  "create_vector ceil_log2 elem_sz = create_vector_with_capacity ceil_log2 elem_sz 16"

definition get_elem :: "Vector \<Rightarrow> int \<Rightarrow> nat" where
  "get_elem v index = size_t_wrap (size_t_of_int index * elem_size v)"

definition set_elem :: "Vector \<Rightarrow> int \<Rightarrow> pointer \<Rightarrow> error + Vector" where
  "set_elem v index element =
     (case deref v element of
        Inl e \<Rightarrow> Inl e
      | Inr bs \<Rightarrow>
          if (case element of Into_array q \<Rightarrow> overlap (get_elem v index) q (elem_size v)
              | Object _ \<Rightarrow> False)
          then Inl UndefinedBehaviour
          else (case mem_write (array v) (get_elem v index) bs of
                  Inl e \<Rightarrow> Inl e
                | Inr a \<Rightarrow> Inr (v\<lparr>array := a\<rparr>)))"

text \<open>
  \<^verbatim>\<open>realloc\<close> is a parameter: asked for \<open>n\<close> bytes it fails (\<open>None\<close>) or succeeds with
  some contents for the bytes beyond the old block, which C leaves indeterminate.
\<close>

type_synonym allocator = "nat \<Rightarrow> (nat \<Rightarrow> byte) option"

definition expand_vector :: "allocator \<Rightarrow> Vector \<Rightarrow> nat \<Rightarrow> error + Vector" where
  "expand_vector realloc v new_size =
     (let new_bytes = size_t_wrap (elem_size v * new_size) in
      case realloc new_bytes of
        None \<Rightarrow> Inl OutOfMemory
      | Some fresh \<Rightarrow>
          Inr (v\<lparr>array := take new_bytes (array v)
                            @ map fresh [length (array v)..<new_bytes],
                 capacity := new_size\<rparr>))"

text \<open>
  After a \<^verbatim>\<open>realloc\<close> a pointer into the old block is dangling, so pushing an element
  of the vector itself while the vector grows is undefined.
\<close>

definition push_back :: "allocator \<Rightarrow> Vector \<Rightarrow> pointer \<Rightarrow> error + Vector" where
  "push_back realloc v element =
     (case (if capacity v \<le> length_v v
            then (case element of
                    Into_array _ \<Rightarrow> Inl UndefinedBehaviour
                  | Object _ \<Rightarrow> expand_vector realloc v (size_t_wrap (capacity v * 2)))
            else Inr v) of
        Inl e \<Rightarrow> Inl e
      | Inr v1 \<Rightarrow>
          (case set_elem v1 (int_of_size_t (length_v v1)) element of
             Inl e \<Rightarrow> Inl e
           | Inr v2 \<Rightarrow> Inr (v2\<lparr>length_v := size_t_wrap (length_v v2 + 1)\<rparr>)))"

function remove_loop :: "Vector \<Rightarrow> int \<Rightarrow> error + Vector" where
  "remove_loop v i =
     (if size_t_of_int i < length_v v then
        (case set_elem v (i - 1) (Into_array (get_elem v i)) of
           Inl e \<Rightarrow> Inl e
         | Inr v' \<Rightarrow>
             if INT_MAX \<le> i then Inl UndefinedBehaviour else remove_loop v' (i + 1))
      else Inr v)"
  by pat_completeness auto
termination
  by (relation "measure (\<lambda>(v, i). nat (INT_MAX - i))") auto

definition remove_elem :: "Vector \<Rightarrow> int \<Rightarrow> error + Vector" where
  "remove_elem v index =
     (if INT_MAX \<le> index then Inl UndefinedBehaviour
      else (case remove_loop v (index + 1) of
              Inl e \<Rightarrow> Inl e
            | Inr v' \<Rightarrow> Inr (v'\<lparr>length_v := size_t_wrap (length_v v' + 2 ^ 64 - 1)\<rparr>)))"

function index_of_loop :: "Vector \<Rightarrow> pointer \<Rightarrow> int \<Rightarrow> error + int" where
  "index_of_loop v element i =
     (if size_t_of_int i < length_v v then
        (case deref v (Into_array (get_elem v i)) of
           Inl e \<Rightarrow> Inl e
         | Inr candidate \<Rightarrow>
             (case deref v element of
                Inl e \<Rightarrow> Inl e
              | Inr bs \<Rightarrow>
                  if candidate = bs then Inr i
                  else if INT_MAX \<le> i then Inl UndefinedBehaviour
                  else index_of_loop v element (i + 1)))
      else Inr (- 1))"
  by pat_completeness auto
termination
  by (relation "measure (\<lambda>(v, element, i). nat (INT_MAX - i))") auto

definition index_of :: "Vector \<Rightarrow> pointer \<Rightarrow> error + int" where
  "index_of v element = index_of_loop v element 0"

definition is_empty :: "Vector \<Rightarrow> bool" where
  "is_empty v \<longleftrightarrow> length_v v = 0"

text \<open>
  \<^verbatim>\<open>any_elems_shared\<close> writes to \<^verbatim>\<open>stderr\<close>: the result carries the lines written.
\<close>

function any_shared_inner :: "Vector \<Rightarrow> Vector \<Rightarrow> int \<Rightarrow> int \<Rightarrow> error + bool" where
  "any_shared_inner vector1 vector2 i j =
     (if size_t_of_int j < length_v vector2 then
        (case mem_read (array vector1) (get_elem vector1 i) (elem_size vector1) of
           Inl e \<Rightarrow> Inl e
         | Inr elem1 \<Rightarrow>
             (case mem_read (array vector2) (get_elem vector2 j) (elem_size vector1) of
                Inl e \<Rightarrow> Inl e
              | Inr elem2 \<Rightarrow>
                  if elem1 = elem2 then Inr True
                  else if INT_MAX \<le> j then Inl UndefinedBehaviour
                  else any_shared_inner vector1 vector2 i (j + 1)))
      else Inr False)"
  by pat_completeness auto
termination
  by (relation "measure (\<lambda>(v1, v2, i, j). nat (INT_MAX - j))") auto

function any_shared_outer :: "Vector \<Rightarrow> Vector \<Rightarrow> int \<Rightarrow> error + bool" where
  "any_shared_outer vector1 vector2 i =
     (if size_t_of_int i < length_v vector1 then
        (case any_shared_inner vector1 vector2 i 0 of
           Inl e \<Rightarrow> Inl e
         | Inr found \<Rightarrow>
             if found then Inr True
             else if INT_MAX \<le> i then Inl UndefinedBehaviour
             else any_shared_outer vector1 vector2 (i + 1))
      else Inr False)"
  by pat_completeness auto
termination
  by (relation "measure (\<lambda>(v1, v2, i). nat (INT_MAX - i))") auto

definition any_elems_shared :: "Vector \<Rightarrow> Vector \<Rightarrow> string list \<times> (error + bool)" where
  "any_elems_shared vector1 vector2 =
     (if elem_size vector1 \<noteq> elem_size vector2
      then ([''ERROR: Attempted to compare vectors with inequal element sizes!''], Inr False)
      else ([], any_shared_outer vector1 vector2 0))"

text \<open>The scratch buffer \<^verbatim>\<open>temp\<close> is a separate object holding a copy of the first slot.\<close>

definition swap_elems :: "Vector \<Rightarrow> int \<Rightarrow> int \<Rightarrow> error + Vector" where
  "swap_elems v index1 index2 =
     (if index1 = index2 then Inr v
      else (case deref v (Into_array (get_elem v index1)) of
              Inl e \<Rightarrow> Inl e
            | Inr temp \<Rightarrow>
                (case set_elem v index1 (Into_array (get_elem v index2)) of
                   Inl e \<Rightarrow> Inl e
                 | Inr v1 \<Rightarrow> set_elem v1 index2 (Object temp))))"

text \<open>
  The comparison function receives two pointers into the block; it is modelled as a
  function of the two elements' bytes.
\<close>

type_synonym comparator = "byte list \<Rightarrow> byte list \<Rightarrow> int"

function sort_inner :: "Vector \<Rightarrow> comparator \<Rightarrow> int \<Rightarrow> int \<Rightarrow> error + int" where
  "sort_inner v compare min_index j =
     (if size_t_of_int j < length_v v then
        (case deref v (Into_array (get_elem v min_index)) of
           Inl e \<Rightarrow> Inl e
         | Inr min_elem \<Rightarrow>
             (case deref v (Into_array (get_elem v j)) of
                Inl e \<Rightarrow> Inl e
              | Inr candidate \<Rightarrow>
                  if INT_MAX \<le> j then Inl UndefinedBehaviour
                  else sort_inner v compare
                         (if compare min_elem candidate = 1 then j else min_index) (j + 1)))
      else Inr min_index)"
  by pat_completeness auto
termination
  by (relation "measure (\<lambda>(v, c, m, j). nat (INT_MAX - j))") auto

function sort_outer :: "Vector \<Rightarrow> comparator \<Rightarrow> int \<Rightarrow> error + Vector" where
  "sort_outer v compare i =
     (if size_t_of_int i < size_t_wrap (length_v v + 2 ^ 64 - 1) then
        (if INT_MAX \<le> i then Inl UndefinedBehaviour
         else (case sort_inner v compare i (i + 1) of
                 Inl e \<Rightarrow> Inl e
               | Inr min_index \<Rightarrow>
                   (case swap_elems v i min_index of
                      Inl e \<Rightarrow> Inl e
                    | Inr v' \<Rightarrow> sort_outer v' compare (i + 1))))
      else Inr v)"
  by pat_completeness auto
termination
  by (relation "measure (\<lambda>(v, c, i). nat (INT_MAX - i))") auto

definition sort_vector :: "Vector \<Rightarrow> comparator \<Rightarrow> error + Vector" where
  "sort_vector v compare = sort_outer v compare 0"

section \<open>Reading a vector\<close>

definition slot :: "Vector \<Rightarrow> nat \<Rightarrow> byte list" where
  "slot v i = take (elem_size v) (drop (i * elem_size v) (array v))"

definition elems :: "Vector \<Rightarrow> byte list list" where
  "elems v = map (slot v) [0..<length_v v]"

definition vector_ok :: "Vector \<Rightarrow> bool" where
  "vector_ok v \<longleftrightarrow>
     length (array v) = capacity v * elem_size v \<and> length (array v) < 2 ^ 64 \<and>
     elem_size v < 2 ^ 64 \<and> capacity v < 2 ^ 64 \<and>
     length_v v \<le> capacity v \<and> int (length_v v) \<le> INT_MAX"

text \<open>A 4-byte \<^verbatim>\<open>int\<close> in memory, least significant byte first.\<close>

definition bytes_of_int :: "int \<Rightarrow> byte list" where
  "bytes_of_int x = map (\<lambda>k. word_of_int (x div 256 ^ k)) [0..<4]"

definition int_of_bytes :: "byte list \<Rightarrow> int" where
  "int_of_bytes bs = sint (word_of_int (horner_sum uint 256 bs) :: 32 word)"

definition descending :: comparator where
  "descending a b =
     (if int_of_bytes a < int_of_bytes b then 1
      else if int_of_bytes a = int_of_bytes b then 0 else - 1)"

fun push_all :: "allocator \<Rightarrow> Vector \<Rightarrow> pointer list \<Rightarrow> error + Vector" where
  "push_all realloc v [] = Inr v"
| "push_all realloc v (x # xs) =
     (case push_back realloc v x of
        Inl e \<Rightarrow> Inl e
      | Inr v' \<Rightarrow> push_all realloc v' xs)"


section \<open>Reference values and sample data\<close>

text \<open>
  The mathematical value that \<^verbatim>\<open>ceil(log(x) / log(2))\<close> approximates: the least \<open>n\<close>
  with \<open>x \<le> 2 ^ n\<close>.
\<close>

definition exact_ceil_log2 :: "int \<Rightarrow> int" where
  "exact_ceil_log2 x = int (length (takeWhile (\<lambda>n. 2 ^ n < x) [0..<nat x]))"

definition zero_bytes :: "nat \<Rightarrow> byte" where
  "zero_bytes i = 0"

definition zero_fill :: allocator where
  "zero_fill n = Some zero_bytes"

definition sample_bytes :: Vector where
  "sample_bytes = \<lparr>array = [7, 8, 9, 0], elem_size = 1, length_v = 3, capacity = 4\<rparr>"

definition sample_pairs :: Vector where
  "sample_pairs = \<lparr>array = [7, 8, 9, 0], elem_size = 2, length_v = 2, capacity = 2\<rparr>"

definition sample_other :: Vector where
  "sample_other = \<lparr>array = [1, 9], elem_size = 1, length_v = 2, capacity = 2\<rparr>"

definition one_to_five :: "pointer list" where
  "one_to_five = map (\<lambda>k. Object (bytes_of_int k)) [1, 2, 3, 4, 5]"

definition fresh16 :: Vector where
  "fresh16 = \<lparr>array = replicate 64 0, elem_size = 4, length_v = 0, capacity = 16\<rparr>"

definition five :: Vector where
  "five = \<lparr>array = [1,0,0,0, 2,0,0,0, 3,0,0,0, 4,0,0,0, 5,0,0,0] @ replicate 44 0,
           elem_size = 4, length_v = 5, capacity = 16\<rparr>"

definition five_sorted :: Vector where
  "five_sorted = \<lparr>array = [5,0,0,0, 4,0,0,0, 3,0,0,0, 2,0,0,0, 1,0,0,0] @ replicate 44 0,
           elem_size = 4, length_v = 5, capacity = 16\<rparr>"

definition five_removed :: Vector where
  "five_removed = \<lparr>array = [5,0,0,0, 4,0,0,0, 2,0,0,0, 1,0,0,0, 1,0,0,0] @ replicate 44 0,
           elem_size = 4, length_v = 4, capacity = 16\<rparr>"




text \<open>A failing \<^verbatim>\<open>realloc\<close>, and a vector of 1-byte elements whose block is all zero.\<close>

definition no_memory :: allocator where
  "no_memory n = None"


section \<open>Machine integers and slots\<close>

text \<open>Each iteration is unfolded by hand, one at a time.\<close>

declare remove_loop.simps [simp del] index_of_loop.simps [simp del]
  any_shared_inner.simps [simp del] any_shared_outer.simps [simp del]
  sort_inner.simps [simp del] sort_outer.simps [simp del]

lemma size_t_of_int_nat: "0 \<le> i \<Longrightarrow> i \<le> INT_MAX \<Longrightarrow> size_t_of_int i = nat i"
  by (simp add: size_t_of_int_def INT_MAX_def)

lemma int_of_size_t_small: "int n \<le> INT_MAX \<Longrightarrow> int_of_size_t n = int n"
  by (simp add: int_of_size_t_def INT_MAX_def Let_def)

lemma slot_bound: "i < c \<Longrightarrow> i * n + n \<le> c * (n::nat)"
proof -
  assume "i < c"
  then have "Suc i * n \<le> c * n"
    by (intro mult_le_mono1) simp
  then show ?thesis by (simp add: add.commute)
qed

lemma get_elem_in:
  assumes "vector_ok v" "0 \<le> i" "i \<le> INT_MAX" "nat i < capacity v"
  shows "get_elem v i = nat i * elem_size v"
proof -
  have "nat i * elem_size v + elem_size v \<le> capacity v * elem_size v"
    using assms(4) by (rule slot_bound)
  with assms(1) have "nat i * elem_size v < 2 ^ 64"
    by (simp add: vector_ok_def)
  with assms(2,3) show ?thesis
    by (simp add: get_elem_def size_t_wrap_def size_t_of_int_nat)
qed

lemma length_slot: "vector_ok v \<Longrightarrow> i < capacity v \<Longrightarrow> length (slot v i) = elem_size v"
  using slot_bound [of i "capacity v" "elem_size v"]
  by (simp add: slot_def vector_ok_def)

lemma deref_slot:
  assumes "vector_ok v" "0 \<le> i" "i \<le> INT_MAX" "nat i < capacity v"
  shows "deref v (Into_array (get_elem v i)) = Inr (slot v (nat i))"
  using assms slot_bound [of "nat i" "capacity v" "elem_size v"]
  by (simp add: deref_def mem_read_def get_elem_in slot_def vector_ok_def)

lemma read_prefix: "p + n \<le> length xs \<Longrightarrow> take n (drop p (xs @ ys)) = take n (drop p xs)"
  by simp

lemma read_before_write:
  assumes "p + n \<le> q" "q \<le> length a"
  shows "take n (drop p (take q a @ ys)) = take n (drop p a)"
proof -
  have "take n (drop p (take q a @ ys)) = take n (drop p (take q a))"
    using assms by (intro read_prefix) simp
  also have "\<dots> = take n (drop p (take q a @ drop q a))"
    using assms by (intro read_prefix [symmetric]) simp
  finally show ?thesis by simp
qed

lemma read_after_write:
  assumes "q + length bs \<le> p" "q + length bs \<le> length a"
  shows "drop p (take q a @ bs @ drop (q + length bs) a) = drop p a"
proof -
  have "drop p (take q a @ bs @ drop (q + length bs) a)
        = drop (p - q - length bs) (drop (q + length bs) a)"
    using assms by simp
  also have "\<dots> = drop p a"
    using assms by simp
  finally show ?thesis .
qed

lemma write_slot:
  assumes "length bs = n" "i * n + n \<le> length a" "j * n + n \<le> length a"
  shows "take n (drop (j * n) (take (i * n) a @ bs @ drop (i * n + n) a))
         = (if j = i then bs else take n (drop (j * n) a))"
proof -
  consider "j < i" | "j = i" | "i < j" by linarith
  then show ?thesis
  proof cases
    case 1
    then have "j * n + n \<le> i * n" using slot_bound by simp
    with assms have "take n (drop (j * n) (take (i * n) a @ (bs @ drop (i * n + n) a)))
        = take n (drop (j * n) a)"
      by (intro read_before_write) simp_all
    with 1 show ?thesis by simp
  next
    case 2
    with assms show ?thesis by simp
  next
    case 3
    then have "i * n + n \<le> j * n" using slot_bound by simp
    with 3 assms read_after_write [of "i * n" bs "j * n" a] show ?thesis by simp
  qed
qed

section \<open>Construction\<close>

lemma pow2_least:
  fixes n :: nat
  assumes "2 ^ k < 2 * n" "n \<le> 2 ^ m"
  shows "k \<le> m"
proof -
  from assms have "(2::nat) ^ k < 2 ^ Suc m" by simp
  then have "k < Suc m" by (rule power_less_imp_less_exp [rotated]) simp
  then show ?thesis by simp
qed

text \<open>
  C1, as stated, fails: \<^verbatim>\<open>next_pow_2\<close> returns the exponent 1 for every argument up to 2,
  and \<^verbatim>\<open>create_vector_with_capacity\<close> raises 2 to it, so a requested capacity of 1
  yields capacity 2, not 1.
\<close>

theorem create_with_capacity_one_gives_two:
  "create_vector_with_capacity exact_ceil_log2 4 1
     = Inr \<lparr>array = replicate 8 0, elem_size = 4, length_v = 0, capacity = 2\<rparr>
   \<and> create_vector_with_capacity exact_ceil_log2 4 1
     \<noteq> Inr \<lparr>array = replicate 4 0, elem_size = 4, length_v = 0, capacity = 1\<rparr>"
  by (simp add: create_vector_with_capacity_def next_pow_2_def pow_2_size_t_def
      int_of_size_t_def calloc_def)

text \<open>
  C1, amended: for every element size and every requested capacity that fits an
  \<^verbatim>\<open>int\<close>, the new vector has length 0; a request of at most 2 yields capacity 2; a
  larger request yields capacity \<open>2 ^ k\<close>, where \<open>k\<close> is the value the C library
  computes for \<^verbatim>\<open>ceil(log(x) / log(2))\<close>; and whenever \<open>2 ^ k\<close> is at least the request
  and less than twice the request (the exact ceiling of the binary logarithm), it is the
  smallest power of two that is at least the request.
\<close>

theorem create_with_capacity_power_of_two:
  assumes "int initial_size \<le> INT_MAX"
  shows "(initial_size \<le> 2 \<longrightarrow>
            create_vector_with_capacity ceil_log2 es initial_size
              = Inr \<lparr>array = calloc 2 es, elem_size = es, length_v = 0, capacity = 2\<rparr>)
       \<and> (2 < initial_size \<and> ceil_log2 (int initial_size) = int k \<and> k < 64 \<longrightarrow>
            create_vector_with_capacity ceil_log2 es initial_size
              = Inr \<lparr>array = calloc (2 ^ k) es, elem_size = es, length_v = 0,
                     capacity = 2 ^ k\<rparr>)
       \<and> (initial_size \<le> 2 ^ k \<and> 2 ^ k < 2 * initial_size \<longrightarrow>
            (\<forall>m. initial_size \<le> 2 ^ m \<longrightarrow> (2::nat) ^ k \<le> 2 ^ m))"
  using assms
  by (auto simp add: create_vector_with_capacity_def next_pow_2_def pow_2_size_t_def
      int_of_size_t_small intro: pow2_least)

theorem create_with_capacity_power_of_two_witness:
  "int 9 \<le> INT_MAX \<and> (2::nat) < 9 \<and> exact_ceil_log2 (int 9) = int 4 \<and> (4::nat) < 64
   \<and> create_vector_with_capacity exact_ceil_log2 4 9
       = Inr \<lparr>array = calloc 16 4, elem_size = 4, length_v = 0, capacity = 16\<rparr>
   \<and> (9::nat) \<le> 2 ^ 4 \<and> (2::nat) ^ 4 < 2 * 9
   \<and> int 2 \<le> INT_MAX \<and> (2::nat) \<le> 2
   \<and> create_vector_with_capacity exact_ceil_log2 4 2
       = Inr \<lparr>array = calloc 2 4, elem_size = 4, length_v = 0, capacity = 2\<rparr>"
proof -
  have h: "int 9 \<le> INT_MAX" "int 2 \<le> INT_MAX"
    by (simp_all add: INT_MAX_def)
  have e: "exact_ceil_log2 (int 9) = int 4"
    by (simp add: exact_ceil_log2_def upt_rec)
  show ?thesis
    using h e create_with_capacity_power_of_two [OF h(1), of exact_ceil_log2 4 4]
      create_with_capacity_power_of_two [OF h(2), of exact_ceil_log2 4 4]
    by simp
qed

section \<open>Removal one past the end\<close>

text \<open>
  C5: for every vector (whose length leaves room for the \<^verbatim>\<open>int\<close> counter
  \<^verbatim>\<open>index + 1\<close>), \<^verbatim>\<open>remove_elem\<close> with index equal to the length runs the shift loop
  zero times, so the block is unchanged, and still decrements the length by one; the
  length is a \<^verbatim>\<open>size_t\<close>, so a length of 0 wraps around to \<open>2 ^ 64 - 1\<close>.
\<close>

theorem remove_elem_one_past_end:
  assumes "int (length_v v) < INT_MAX"
  shows "remove_loop v (int (length_v v) + 1) = Inr v
       \<and> remove_elem v (int (length_v v))
           = Inr (v\<lparr>length_v := (if length_v v = 0 then 2 ^ 64 - 1 else length_v v - 1)\<rparr>)"
proof -
  have "size_t_of_int (int (length_v v) + 1) = length_v v + 1"
    using assms size_t_of_int_nat [of "int (length_v v) + 1"] by (simp add: nat_add_distrib)
  then have loop: "remove_loop v (int (length_v v) + 1) = Inr v"
    by (subst remove_loop.simps) simp
  have "length_v v < 2 ^ 64" using assms by (simp add: INT_MAX_def)
  then have "size_t_wrap (length_v v + 2 ^ 64 - 1)
        = (if length_v v = 0 then 2 ^ 64 - 1 else length_v v - 1)"
    by (simp add: size_t_wrap_def mod_if)
  with loop assms show ?thesis
    by (simp add: remove_elem_def)
qed

theorem remove_elem_one_past_end_witness:
  "int (length_v sample_bytes) < INT_MAX
   \<and> remove_elem sample_bytes 3
       = Inr \<lparr>array = [7, 8, 9, 0], elem_size = 1, length_v = 2, capacity = 4\<rparr>"
proof -
  have h: "int (length_v sample_bytes) < INT_MAX"
    by (simp add: sample_bytes_def INT_MAX_def)
  show ?thesis
    using h remove_elem_one_past_end [OF h] by (simp add: sample_bytes_def)
qed

section \<open>Shared elements\<close>

text \<open>
  C7: for every two vectors whose element sizes differ, \<^verbatim>\<open>any_elems_shared\<close> writes the
  error line and returns false; no byte of either block is read, so the outcome is the
  same whatever the two blocks hold (even blocks too short to read from).
\<close>

theorem any_elems_shared_size_mismatch:
  assumes "elem_size vector1 \<noteq> elem_size vector2"
  shows "any_elems_shared vector1 vector2
           = ([''ERROR: Attempted to compare vectors with inequal element sizes!''], Inr False)
       \<and> any_elems_shared (vector1\<lparr>array := a1\<rparr>) (vector2\<lparr>array := a2\<rparr>)
           = any_elems_shared vector1 vector2"
  using assms by (simp add: any_elems_shared_def)

theorem any_elems_shared_size_mismatch_witness:
  "elem_size sample_bytes \<noteq> elem_size sample_pairs
   \<and> any_elems_shared sample_bytes sample_pairs
       = ([''ERROR: Attempted to compare vectors with inequal element sizes!''], Inr False)
   \<and> any_elems_shared (sample_bytes\<lparr>array := []\<rparr>) (sample_pairs\<lparr>array := []\<rparr>)
       = any_elems_shared sample_bytes sample_pairs"
proof -
  have h: "elem_size sample_bytes \<noteq> elem_size sample_pairs"
    by (simp add: sample_bytes_def sample_pairs_def)
  show ?thesis
    using h any_elems_shared_size_mismatch [OF h, of "[]" "[]"] by simp
qed

section \<open>Growth\<close>

text \<open>
  C9, as stated, fails: the byte count \<^verbatim>\<open>elem_size * new_size\<close> is computed in
  \<^verbatim>\<open>size_t\<close> and wraps. Asking a vector of two 2-byte elements for \<open>2 ^ 63 + 1\<close> slots
  requests 2 bytes from \<^verbatim>\<open>realloc\<close>: the capacity becomes \<open>2 ^ 63 + 1\<close>, and of the
  \<open>min 2 (2 ^ 63 + 1) * 2 = 4\<close> bytes to be kept only 2 are left.
\<close>

theorem expand_vector_byte_count_wraps:
  "expand_vector zero_fill sample_pairs 9223372036854775809
     = Inr \<lparr>array = [7, 8], elem_size = 2, length_v = 2, capacity = 9223372036854775809\<rparr>
   \<and> min (capacity sample_pairs) 9223372036854775809 * elem_size sample_pairs = 4
   \<and> take 4 [7, 8] \<noteq> take 4 (array sample_pairs)"
  by (simp add: expand_vector_def Let_def size_t_wrap_def zero_fill_def sample_pairs_def)

text \<open>
  C9, amended: for every vector and every requested size, smaller than the capacity or
  not a power of two included, \<^verbatim>\<open>expand_vector\<close> fails exactly when \<^verbatim>\<open>realloc\<close> returns
  \<^verbatim>\<open>NULL\<close> (as it may for a request of 0 bytes); it never rounds the size or rejects a
  shrinking request itself. When \<^verbatim>\<open>realloc\<close> returns a block, the capacity is exactly the
  requested size, length and element size are unchanged, and the new block has
  \<open>elem_size * new_size mod 2 ^ 64\<close> bytes; when \<open>elem_size * new_size\<close> does not wrap, the
  first \<open>min old_capacity new_size * elem_size\<close> bytes of the block are kept.
\<close>

theorem expand_vector_exact:
  "(realloc (size_t_wrap (elem_size v * new_size)) = None \<longrightarrow>
      expand_vector realloc v new_size = Inl OutOfMemory)
   \<and> (realloc (size_t_wrap (elem_size v * new_size)) = Some fresh \<longrightarrow>
      (\<exists>v'. expand_vector realloc v new_size = Inr v'
           \<and> capacity v' = new_size \<and> elem_size v' = elem_size v \<and> length_v v' = length_v v
           \<and> length (array v') = size_t_wrap (elem_size v * new_size)
           \<and> (elem_size v * new_size < 2 ^ 64 \<and> length (array v) = capacity v * elem_size v \<longrightarrow>
                take (min (capacity v) new_size * elem_size v) (array v')
                  = take (min (capacity v) new_size * elem_size v) (array v))))"
  by (auto simp add: expand_vector_def Let_def size_t_wrap_def min_def mult.commute)

theorem expand_vector_exact_witness:
  "zero_fill (size_t_wrap (elem_size sample_bytes * 3)) = Some zero_bytes
   \<and> elem_size sample_bytes * 3 < 2 ^ 64
   \<and> length (array sample_bytes) = capacity sample_bytes * elem_size sample_bytes
   \<and> expand_vector zero_fill sample_bytes 3
       = Inr \<lparr>array = [7, 8, 9], elem_size = 1, length_v = 3, capacity = 3\<rparr>
   \<and> no_memory (size_t_wrap (elem_size sample_bytes * 3)) = None
   \<and> expand_vector no_memory sample_bytes 3 = Inl OutOfMemory"
proof -
  have h: "zero_fill (size_t_wrap (elem_size sample_bytes * 3)) = Some zero_bytes"
    "no_memory (size_t_wrap (elem_size sample_bytes * 3)) = None"
    "elem_size sample_bytes * 3 < 2 ^ 64"
    "length (array sample_bytes) = capacity sample_bytes * elem_size sample_bytes"
    by (simp_all add: zero_fill_def no_memory_def sample_bytes_def)
  show ?thesis
    using h expand_vector_exact [of zero_fill sample_bytes 3 zero_bytes]
      expand_vector_exact [of no_memory sample_bytes 3 zero_bytes]
    by (simp add: expand_vector_def sample_bytes_def size_t_wrap_def zero_fill_def)
qed

section \<open>Searching\<close>

lemma index_of_loop_step:
  assumes ok: "vector_ok v" and el: "deref v element = Inr bs"
    and i: "0 \<le> i" "nat i < length_v v"
  shows "index_of_loop v element i
         = (if slot v (nat i) = bs then Inr i else index_of_loop v element (i + 1))"
proof -
  from ok i have b: "i \<le> INT_MAX" "nat i < capacity v" "\<not> INT_MAX \<le> i"
    by (auto simp add: vector_ok_def)
  from i b have "size_t_of_int i < length_v v"
    by (simp add: size_t_of_int_nat)
  then show ?thesis
    using b el deref_slot [OF ok i(1) b(1,2)]
    by (subst index_of_loop.simps) simp
qed

lemma index_of_loop_end:
  assumes "vector_ok v" "0 \<le> i" "nat i = length_v v"
  shows "index_of_loop v element i = Inr (- 1)"
proof -
  from assms have "i \<le> INT_MAX" by (auto simp add: vector_ok_def)
  with assms have "size_t_of_int i = length_v v"
    by (simp add: size_t_of_int_nat)
  then show ?thesis
    by (subst index_of_loop.simps) simp
qed

lemma index_of_loop_found:
  assumes ok: "vector_ok v" and el: "deref v element = Inr bs"
    and k: "k < length_v v" "slot v k = bs"
  shows "0 \<le> i \<Longrightarrow> nat i \<le> k \<Longrightarrow> \<forall>j. nat i \<le> j \<and> j < k \<longrightarrow> slot v j \<noteq> bs \<Longrightarrow>
         index_of_loop v element i = Inr (int k)"
proof (induction "k - nat i" arbitrary: i)
  case 0
  then have "nat i = k" by simp
  with k 0 index_of_loop_step [OF ok el, of i] show ?case by simp
next
  case (Suc n)
  then have lt: "nat i < k" by simp
  with Suc.prems have ne: "slot v (nat i) \<noteq> bs" by blast
  have "index_of_loop v element (i + 1) = Inr (int k)"
  proof (rule Suc.hyps(1))
    show "n = k - nat (i + 1)" using Suc.hyps(2) Suc.prems by (simp add: nat_add_distrib)
    show "0 \<le> i + 1" using Suc.prems by simp
    show "nat (i + 1) \<le> k" using lt Suc.prems by (simp add: nat_add_distrib)
    show "\<forall>j. nat (i + 1) \<le> j \<and> j < k \<longrightarrow> slot v j \<noteq> bs"
      using Suc.prems by (simp add: nat_add_distrib)
  qed
  with ne lt k index_of_loop_step [OF ok el, of i] Suc.prems show ?case by simp
qed

lemma index_of_loop_absent:
  assumes ok: "vector_ok v" and el: "deref v element = Inr bs"
  shows "0 \<le> i \<Longrightarrow> nat i \<le> length_v v \<Longrightarrow>
         \<forall>j. nat i \<le> j \<and> j < length_v v \<longrightarrow> slot v j \<noteq> bs \<Longrightarrow>
         index_of_loop v element i = Inr (- 1)"
proof (induction "length_v v - nat i" arbitrary: i)
  case 0
  then have "nat i = length_v v" by simp
  with ok 0 show ?case by (simp add: index_of_loop_end)
next
  case (Suc n)
  then have lt: "nat i < length_v v" by simp
  with Suc.prems have ne: "slot v (nat i) \<noteq> bs" by blast
  have "index_of_loop v element (i + 1) = Inr (- 1)"
  proof (rule Suc.hyps(1))
    show "n = length_v v - nat (i + 1)"
      using Suc.hyps(2) Suc.prems by (simp add: nat_add_distrib)
    show "0 \<le> i + 1" using Suc.prems by simp
    show "nat (i + 1) \<le> length_v v" using lt Suc.prems by (simp add: nat_add_distrib)
    show "\<forall>j. nat (i + 1) \<le> j \<and> j < length_v v \<longrightarrow> slot v j \<noteq> bs"
      using Suc.prems by (simp add: nat_add_distrib)
  qed
  with ne lt index_of_loop_step [OF ok el, of i] Suc.prems show ?case by simp
qed

text \<open>
  C8: for every well-formed vector and every value \<open>bs\<close> (the \<open>elem_size\<close> bytes the
  argument points at), \<^verbatim>\<open>index_of\<close> returns the smallest index below the length whose
  slot holds exactly these bytes, and \<open>-1\<close> when no slot below the length does.
\<close>

theorem index_of_first_match:
  assumes "vector_ok v" "deref v element = Inr bs"
  shows "(k < length_v v \<and> slot v k = bs \<and> (\<forall>j<k. slot v j \<noteq> bs)
            \<longrightarrow> index_of v element = Inr (int k))
       \<and> ((\<forall>j<length_v v. slot v j \<noteq> bs) \<longrightarrow> index_of v element = Inr (- 1))"
  using index_of_loop_found [OF assms, of k 0] index_of_loop_absent [OF assms, of 0]
  by (simp add: index_of_def)

theorem index_of_first_match_witness:
  "vector_ok sample_bytes \<and> deref sample_bytes (Object [8]) = Inr [8]
   \<and> (1::nat) < length_v sample_bytes \<and> slot sample_bytes 1 = [8]
   \<and> slot sample_bytes 0 \<noteq> [8]
   \<and> index_of sample_bytes (Object [8]) = Inr 1
   \<and> deref sample_bytes (Object [5]) = Inr [5]
   \<and> index_of sample_bytes (Object [5]) = Inr (- 1)"
proof -
  have h: "vector_ok sample_bytes" "deref sample_bytes (Object [8]) = Inr [8]"
    "deref sample_bytes (Object [5]) = Inr [5]"
    by (simp_all add: vector_ok_def sample_bytes_def deref_def mem_read_def INT_MAX_def)
  have s: "slot sample_bytes 0 = [7]" "slot sample_bytes 1 = [8]" "slot sample_bytes 2 = [9]"
    by (simp_all add: slot_def sample_bytes_def)
  have l: "length_v sample_bytes = 3" by (simp add: sample_bytes_def)
  have a: "\<forall>j<3. slot sample_bytes j \<noteq> [5]"
    by (auto simp add: slot_def sample_bytes_def less_Suc_eq numeral_3_eq_3)
  show ?thesis
    using h s l a index_of_first_match [OF h(1,2), of 1] index_of_first_match [OF h(1,3)]
    by simp
qed

section \<open>Writing and removing\<close>

lemma deref_length: "deref v p = Inr bs \<Longrightarrow> length bs = elem_size v"
  by (auto simp add: deref_def mem_read_def split: pointer.splits if_splits)

lemma no_overlap_slots: "i \<noteq> j \<Longrightarrow> \<not> overlap (i * n) (j * n) n"
proof -
  assume "i \<noteq> j"
  then consider "i < j" | "j < i" by linarith
  then show ?thesis
  proof cases
    case 1
    then have "i * n + n \<le> j * n" by (rule slot_bound)
    then show ?thesis by (simp add: overlap_def)
  next
    case 2
    then have "j * n + n \<le> i * n" by (rule slot_bound)
    then show ?thesis by (simp add: overlap_def)
  qed
qed

lemma set_elem_slot:
  assumes ok: "vector_ok v" and i: "0 \<le> i" "i \<le> INT_MAX" "nat i < capacity v"
    and el: "deref v element = Inr bs"
    and sep: "\<And>q. element = Into_array q \<Longrightarrow> \<not> overlap (nat i * elem_size v) q (elem_size v)"
  shows "\<exists>v'. set_elem v i element = Inr v' \<and> vector_ok v' \<and> elem_size v' = elem_size v
           \<and> length_v v' = length_v v \<and> capacity v' = capacity v
           \<and> (\<forall>k<capacity v. slot v' k = (if k = nat i then bs else slot v k))"
proof -
  define n where "n = elem_size v"
  define a where "a = array v"
  define a' where "a' = take (nat i * n) a @ bs @ drop (nat i * n + n) a"
  have len: "length bs = n" using el unfolding n_def by (rule deref_length)
  have g: "get_elem v i = nat i * n" using ok i unfolding n_def by (rule get_elem_in)
  have size: "length a = capacity v * n" using ok by (simp add: vector_ok_def a_def n_def)
  have inb: "nat i * n + n \<le> length a" using i(3) size by (simp add: slot_bound)
  have "\<not> (case element of Into_array q \<Rightarrow> overlap (get_elem v i) q (elem_size v)
             | Object _ \<Rightarrow> False)"
    using sep g by (cases element) (simp_all add: n_def)
  then have res: "set_elem v i element = Inr (v\<lparr>array := a'\<rparr>)"
    using el g inb len by (simp add: set_elem_def mem_write_def a'_def a_def n_def)
  have len': "length a' = length a" using inb len by (simp add: a'_def)
  have ok': "vector_ok (v\<lparr>array := a'\<rparr>)"
    using ok len' by (simp add: vector_ok_def a_def)
  have "slot (v\<lparr>array := a'\<rparr>) k = (if k = nat i then bs else slot v k)"
    if "k < capacity v" for k
  proof -
    from that size have "k * n + n \<le> length a" by (simp add: slot_bound)
    with len inb have "take n (drop (k * n) a') = (if k = nat i then bs else take n (drop (k * n) a))"
      unfolding a'_def by (rule write_slot)
    then show ?thesis by (simp add: slot_def n_def a_def)
  qed
  with res ok' show ?thesis by simp
qed

lemma set_elem_from_slot:
  assumes ok: "vector_ok v" and i: "0 \<le> i" "i \<le> INT_MAX" "nat i < capacity v"
    and j: "0 \<le> j" "j \<le> INT_MAX" "nat j < capacity v" and ne: "i \<noteq> j"
  shows "\<exists>v'. set_elem v i (Into_array (get_elem v j)) = Inr v' \<and> vector_ok v'
           \<and> elem_size v' = elem_size v \<and> length_v v' = length_v v \<and> capacity v' = capacity v
           \<and> (\<forall>k<capacity v. slot v' k = (if k = nat i then slot v (nat j) else slot v k))"
proof (rule set_elem_slot [OF ok i])
  show "deref v (Into_array (get_elem v j)) = Inr (slot v (nat j))"
    using ok j by (rule deref_slot)
  fix q assume "Into_array (get_elem v j) = Into_array q"
  then have "q = nat j * elem_size v" using get_elem_in [OF ok j] by simp
  moreover have "nat i \<noteq> nat j" using ne i j by simp
  ultimately show "\<not> overlap (nat i * elem_size v) q (elem_size v)"
    by (simp add: no_overlap_slots)
qed

lemma remove_loop_shift:
  assumes "vector_ok v" "1 \<le> i" "nat i \<le> length_v v"
  shows "\<exists>v'. remove_loop v i = Inr v' \<and> vector_ok v' \<and> elem_size v' = elem_size v
           \<and> length_v v' = length_v v \<and> capacity v' = capacity v
           \<and> (\<forall>k<capacity v. slot v' k
                 = (if nat i - 1 \<le> k \<and> k + 1 < length_v v then slot v (k + 1) else slot v k))"
  using assms
proof (induction "length_v v - nat i" arbitrary: v i)
  case 0
  then have "nat i = length_v v" by simp
  moreover from 0 have "i \<le> INT_MAX" by (auto simp add: vector_ok_def)
  ultimately have "size_t_of_int i = length_v v" using 0 by (simp add: size_t_of_int_nat)
  then have "remove_loop v i = Inr v" by (subst remove_loop.simps) simp
  with 0 \<open>nat i = length_v v\<close> show ?case by auto
next
  case (Suc n)
  then have lt: "nat i < length_v v" by simp
  with Suc.prems have b: "i \<le> INT_MAX" "nat i < capacity v" "\<not> INT_MAX \<le> i"
    "0 \<le> i" "0 \<le> i - 1" "i - 1 \<le> INT_MAX" "nat (i - 1) < capacity v" "i - 1 \<noteq> i"
    by (auto simp add: vector_ok_def)
  from set_elem_from_slot [OF Suc.prems(1) b(5,6,7) b(4,1,2) b(8)]
  obtain v1 where v1: "set_elem v (i - 1) (Into_array (get_elem v i)) = Inr v1" "vector_ok v1"
    "elem_size v1 = elem_size v" "length_v v1 = length_v v" "capacity v1 = capacity v"
    "\<forall>k<capacity v. slot v1 k = (if k = nat (i - 1) then slot v (nat i) else slot v k)"
    by blast
  have "n = length_v v1 - nat (i + 1)" "1 \<le> i + 1" "nat (i + 1) \<le> length_v v1"
    using Suc.hyps(2) Suc.prems lt v1(4) by (simp_all add: nat_add_distrib)
  from Suc.hyps(1) [OF this(1) v1(2) this(2,3)]
  obtain v' where v': "remove_loop v1 (i + 1) = Inr v'" "vector_ok v'"
    "elem_size v' = elem_size v1" "length_v v' = length_v v1" "capacity v' = capacity v1"
    "\<forall>k<capacity v1. slot v' k
        = (if nat (i + 1) - 1 \<le> k \<and> k + 1 < length_v v1 then slot v1 (k + 1) else slot v1 k)"
    by blast
  have "size_t_of_int i < length_v v" using lt b by (simp add: size_t_of_int_nat)
  then have run: "remove_loop v i = Inr v'"
    using v1(1) v'(1) b(3) by (subst remove_loop.simps) simp
  have "slot v' k = (if nat i - 1 \<le> k \<and> k + 1 < length_v v then slot v (k + 1) else slot v k)"
    if k: "k < capacity v" for k
  proof -
    have cap: "length_v v \<le> capacity v" using Suc.prems(1) by (simp add: vector_ok_def)
    have ni: "nat (i + 1) - 1 = nat i" "nat (i - 1) = nat i - 1" "1 \<le> nat i"
      using Suc.prems by (simp_all add: nat_add_distrib nat_diff_distrib)
    have A: "slot v' k = (if nat i \<le> k \<and> k + 1 < length_v v then slot v1 (k + 1) else slot v1 k)"
      using k v'(6) v1(5,4) ni by simp
    have B: "slot v1 k = (if k = nat i - 1 then slot v (nat i) else slot v k)"
      using k v1(6) ni by simp
    have C: "slot v1 (k + 1) = slot v (k + 1)" if "nat i \<le> k" "k + 1 < length_v v"
    proof -
      from that cap ni have "k + 1 < capacity v" "k + 1 \<noteq> nat (i - 1)" by linarith+
      with v1(6) show ?thesis by simp
    qed
    consider (shifted) "nat i \<le> k" "k + 1 < length_v v"
      | (first) "k = nat i - 1"
      | (rest) "k \<noteq> nat i - 1" "k < nat i \<or> length_v v \<le> k + 1"
      by linarith
    then show ?thesis
    proof cases
      case shifted
      with ni have "nat i - 1 \<le> k" by linarith
      with shifted A C show ?thesis by simp
    next
      case first
      with ni lt have c: "\<not> nat i \<le> k" "nat i - 1 \<le> k" "k + 1 < length_v v" "k + 1 = nat i"
        by linarith+
      with A B first show ?thesis by simp
    next
      case rest
      with ni have c: "\<not> (nat i \<le> k \<and> k + 1 < length_v v)"
        "\<not> (nat i - 1 \<le> k \<and> k + 1 < length_v v)"
        by linarith+
      from A c(1) have "slot v' k = slot v1 k" by (simp only: if_False)
      also from B rest(1) have "\<dots> = slot v k" by (simp only: if_False)
      finally show ?thesis using c(2) by (simp only: if_False)
    qed
  qed
  with run v'(2-5) v1(3-5) show ?case by simp
qed

text \<open>
  C4: for every well-formed vector and every index \<open>i\<close> with \<open>0 \<le> i < length\<close>,
  \<^verbatim>\<open>remove_elem\<close> returns normally, the length decreases by exactly 1, every element
  that was at an index \<open>j > i\<close> is afterwards at index \<open>j - 1\<close>, and every element at an
  index below \<open>i\<close> is unchanged.
\<close>

theorem remove_elem_shifts:
  assumes "vector_ok v" "0 \<le> i" "nat i < length_v v"
  shows "\<exists>v'. remove_elem v i = Inr v' \<and> length_v v' = length_v v - 1
           \<and> elem_size v' = elem_size v \<and> capacity v' = capacity v
           \<and> (\<forall>j. nat i < j \<and> j < length_v v \<longrightarrow> slot v' (j - 1) = slot v j)
           \<and> (\<forall>j<nat i. slot v' j = slot v j)"
proof -
  from assms have b: "\<not> INT_MAX \<le> i" "1 \<le> i + 1" "nat (i + 1) \<le> length_v v"
    "length_v v \<le> capacity v" "length_v v < 2 ^ 64"
    by (auto simp add: vector_ok_def INT_MAX_def)
  from remove_loop_shift [OF assms(1) b(2,3)]
  obtain v1 where v1: "remove_loop v (i + 1) = Inr v1" "vector_ok v1"
    "elem_size v1 = elem_size v" "length_v v1 = length_v v" "capacity v1 = capacity v"
    "\<forall>k<capacity v. slot v1 k
        = (if nat (i + 1) - 1 \<le> k \<and> k + 1 < length_v v then slot v (k + 1) else slot v k)"
    by blast
  let ?v' = "v1\<lparr>length_v := size_t_wrap (length_v v1 + 2 ^ 64 - 1)\<rparr>"
  have run: "remove_elem v i = Inr ?v'"
    using b(1) v1(1) by (simp add: remove_elem_def)
  have len: "length_v ?v' = length_v v - 1"
    using assms(3) b(5) v1(4) by (simp add: size_t_wrap_def mod_if)
  have sl: "slot ?v' k = slot v1 k" for k by (simp add: slot_def)
  have ni: "nat (i + 1) - 1 = nat i" using assms by (simp add: nat_add_distrib)
  have up: "slot ?v' (j - 1) = slot v j" if "nat i < j" "j < length_v v" for j
  proof -
    from that b(4) have "j - 1 < capacity v" "nat i \<le> j - 1" "j - 1 + 1 < length_v v"
      "j - 1 + 1 = j" by linarith+
    with v1(6) ni sl show ?thesis by simp
  qed
  have low: "slot ?v' j = slot v j" if "j < nat i" for j
  proof -
    from that assms(3) b(4) have "j < capacity v" "\<not> nat i \<le> j" by simp_all
    with v1(6) ni sl show ?thesis by simp
  qed
  from run len up low v1(3,5) show ?thesis by simp
qed


lemmas run_defs = set_elem_def deref_def mem_read_def mem_write_def get_elem_def overlap_def
  size_t_of_int_def size_t_wrap_def int_of_size_t_def INT_MAX_def swap_elems_def

theorem remove_elem_shifts_witness:
  "vector_ok sample_bytes \<and> (0::int) \<le> 0 \<and> nat 0 < length_v sample_bytes
   \<and> remove_elem sample_bytes 0
       = Inr \<lparr>array = [8, 9, 9, 0], elem_size = 1, length_v = 2, capacity = 4\<rparr>"
proof -
  have h: "vector_ok sample_bytes" "(0::int) \<le> 0" "nat 0 < length_v sample_bytes"
    by (simp_all add: vector_ok_def sample_bytes_def INT_MAX_def)
  have "remove_elem sample_bytes 0
       = Inr \<lparr>array = [8, 9, 9, 0], elem_size = 1, length_v = 2, capacity = 4\<rparr>"
    by (simp add: remove_elem_def remove_loop.simps set_elem_def deref_def mem_read_def
        mem_write_def get_elem_def overlap_def size_t_of_int_def size_t_wrap_def
        sample_bytes_def INT_MAX_def)
  with h remove_elem_shifts [OF h] show ?thesis by simp
qed

section \<open>Sorting\<close>

lemma swap_elems_slots:
  assumes ok: "vector_ok v" and i: "0 \<le> i" "nat i < length_v v"
    and j: "0 \<le> j" "nat j < length_v v"
  shows "\<exists>v'. swap_elems v i j = Inr v' \<and> vector_ok v' \<and> elem_size v' = elem_size v
           \<and> length_v v' = length_v v \<and> capacity v' = capacity v
           \<and> (\<forall>k<capacity v. slot v' k
                 = (if k = nat i then slot v (nat j)
                    else if k = nat j then slot v (nat i) else slot v k))"
proof (cases "i = j")
  case True
  with ok show ?thesis by (simp add: swap_elems_def)
next
  case False
  from ok i j have b: "i \<le> INT_MAX" "nat i < capacity v" "j \<le> INT_MAX" "nat j < capacity v"
    by (auto simp add: vector_ok_def)
  have temp: "deref v (Into_array (get_elem v i)) = Inr (slot v (nat i))"
    using ok i(1) b(1,2) by (rule deref_slot)
  from set_elem_from_slot [OF ok i(1) b(1,2) j(1) b(3,4) False]
  obtain v1 where v1: "set_elem v i (Into_array (get_elem v j)) = Inr v1" "vector_ok v1"
    "elem_size v1 = elem_size v" "length_v v1 = length_v v" "capacity v1 = capacity v"
    "\<forall>k<capacity v. slot v1 k = (if k = nat i then slot v (nat j) else slot v k)"
    by blast
  have "length (slot v (nat i)) = elem_size v1"
    using ok b(2) v1(3) by (simp add: length_slot)
  then have el: "deref v1 (Object (slot v (nat i))) = Inr (slot v (nat i))"
    by (simp add: deref_def mem_read_def)
  have "\<exists>v'. set_elem v1 j (Object (slot v (nat i))) = Inr v' \<and> vector_ok v'
           \<and> elem_size v' = elem_size v1 \<and> length_v v' = length_v v1 \<and> capacity v' = capacity v1
           \<and> (\<forall>k<capacity v1. slot v' k = (if k = nat j then slot v (nat i) else slot v1 k))"
    using v1(2) j(1) b(3) _ el
  proof (rule set_elem_slot)
    show "nat j < capacity v1" using b(4) v1(5) by simp
  qed simp
  then obtain v' where v': "set_elem v1 j (Object (slot v (nat i))) = Inr v'" "vector_ok v'"
    "elem_size v' = elem_size v1" "length_v v' = length_v v1" "capacity v' = capacity v1"
    "\<forall>k<capacity v1. slot v' k = (if k = nat j then slot v (nat i) else slot v1 k)"
    by blast
  have run: "swap_elems v i j = Inr v'"
    using False temp v1(1) v'(1) by (simp add: swap_elems_def)
  have ne: "nat i \<noteq> nat j" using False i j by simp
  have "slot v' k = (if k = nat i then slot v (nat j)
                    else if k = nat j then slot v (nat i) else slot v k)"
    if "k < capacity v" for k
    using that v'(6) v1(5,6) ne by simp
  with run v'(2-5) v1(3-5) show ?thesis by simp
qed

lemma elems_swap:
  assumes len: "length_v v' = length_v v" and i: "i < length_v v" and j: "j < length_v v"
    and sl: "\<forall>k<length_v v. slot v' k
                 = (if k = i then slot v j else if k = j then slot v i else slot v k)"
  shows "elems v' = (elems v)[j := elems v ! i, i := elems v ! j]"
proof (rule nth_equalityI)
  show "length (elems v') = length ((elems v)[j := elems v ! i, i := elems v ! j])"
    using len by (simp add: elems_def)
  fix k assume "k < length (elems v')"
  then have k: "k < length_v v" using len by (simp add: elems_def)
  with sl i j len show "elems v' ! k = (elems v)[j := elems v ! i, i := elems v ! j] ! k"
    by (simp add: elems_def nth_list_update)
qed

lemma swap_elems_mset:
  assumes ok: "vector_ok v" and i: "0 \<le> i" "nat i < length_v v"
    and j: "0 \<le> j" "nat j < length_v v"
  shows "\<exists>v'. swap_elems v i j = Inr v' \<and> vector_ok v' \<and> elem_size v' = elem_size v
           \<and> length_v v' = length_v v \<and> capacity v' = capacity v
           \<and> mset (elems v') = mset (elems v)"
proof -
  from swap_elems_slots [OF assms]
  obtain v' where v': "swap_elems v i j = Inr v'" "vector_ok v'" "elem_size v' = elem_size v"
    "length_v v' = length_v v" "capacity v' = capacity v"
    "\<forall>k<capacity v. slot v' k
        = (if k = nat i then slot v (nat j)
           else if k = nat j then slot v (nat i) else slot v k)"
    by blast
  have cap: "length_v v \<le> capacity v" using ok by (simp add: vector_ok_def)
  have "elems v' = (elems v)[nat j := elems v ! nat i, nat i := elems v ! nat j]"
    using v'(4) i(2) j(2)
  proof (rule elems_swap)
    show "\<forall>k<length_v v. slot v' k
        = (if k = nat i then slot v (nat j)
           else if k = nat j then slot v (nat i) else slot v k)"
      using v'(6) cap by simp
  qed
  moreover have "length (elems v) = length_v v" by (simp add: elems_def)
  ultimately have "mset (elems v') = mset (elems v)"
    using i(2) j(2) mset_swap [of "nat i" "elems v" "nat j"] by simp
  with v' show ?thesis by blast
qed

lemma sort_inner_in_range:
  assumes ok: "vector_ok v"
  shows "0 \<le> m \<Longrightarrow> nat m < length_v v \<Longrightarrow> 0 \<le> j \<Longrightarrow> nat j \<le> length_v v \<Longrightarrow>
         \<exists>m'. sort_inner v compare m j = Inr m' \<and> 0 \<le> m' \<and> nat m' < length_v v"
proof (induction "length_v v - nat j" arbitrary: m j)
  case 0
  then have "nat j = length_v v" by simp
  moreover from ok 0 have "j \<le> INT_MAX" by (auto simp add: vector_ok_def)
  ultimately have "size_t_of_int j = length_v v" using 0 by (simp add: size_t_of_int_nat)
  then have "sort_inner v compare m j = Inr m" by (subst sort_inner.simps) simp
  with 0 show ?case by simp
next
  case (Suc n)
  then have lt: "nat j < length_v v" by simp
  with ok Suc.prems have b: "j \<le> INT_MAX" "nat j < capacity v" "\<not> INT_MAX \<le> j"
    "m \<le> INT_MAX" "nat m < capacity v"
    by (auto simp add: vector_ok_def)
  define m1 where "m1 = (if compare (slot v (nat m)) (slot v (nat j)) = 1 then j else m)"
  have m1: "0 \<le> m1" "nat m1 < length_v v"
    using Suc.prems lt by (simp_all add: m1_def)
  have "n = length_v v - nat (j + 1)" "0 \<le> j + 1" "nat (j + 1) \<le> length_v v"
    using Suc.hyps(2) Suc.prems lt by (simp_all add: nat_add_distrib)
  from Suc.hyps(1) [OF this(1) m1 this(2,3)]
  obtain m' where m': "sort_inner v compare m1 (j + 1) = Inr m'" "0 \<le> m'" "nat m' < length_v v"
    by blast
  have "size_t_of_int j < length_v v" using lt b Suc.prems by (simp add: size_t_of_int_nat)
  then have "sort_inner v compare m j = sort_inner v compare m1 (j + 1)"
    using b(3) deref_slot [OF ok Suc.prems(1) b(4,5)] deref_slot [OF ok Suc.prems(3) b(1,2)]
    by (subst sort_inner.simps) (simp add: m1_def)
  with m' show ?case by simp
qed

lemma sort_outer_mset:
  "vector_ok v \<Longrightarrow> 0 \<le> i \<Longrightarrow> 1 \<le> length_v v \<Longrightarrow> nat i \<le> length_v v - 1 \<Longrightarrow>
   \<exists>v'. sort_outer v compare i = Inr v' \<and> vector_ok v' \<and> elem_size v' = elem_size v
      \<and> length_v v' = length_v v \<and> capacity v' = capacity v
      \<and> mset (elems v') = mset (elems v)"
proof (induction "length_v v - 1 - nat i" arbitrary: v i)
  case 0
  then have len: "length_v v < 2 ^ 64" "int (length_v v) \<le> INT_MAX"
    by (auto simp add: vector_ok_def INT_MAX_def)
  with 0 have "size_t_wrap (length_v v + 2 ^ 64 - 1) = length_v v - 1"
    by (simp add: size_t_wrap_def mod_if)
  moreover have "size_t_of_int i = length_v v - 1"
    using 0 len by (simp add: size_t_of_int_nat)
  ultimately have "sort_outer v compare i = Inr v"
    by (subst sort_outer.simps) simp
  with 0 show ?case by simp
next
  case (Suc n)
  then have lt: "nat i < length_v v - 1" by simp
  from Suc.prems have len: "length_v v < 2 ^ 64" "int (length_v v) \<le> INT_MAX"
    by (auto simp add: vector_ok_def INT_MAX_def)
  with Suc.prems have w: "size_t_wrap (length_v v + 2 ^ 64 - 1) = length_v v - 1"
    by (simp add: size_t_wrap_def mod_if)
  from lt len Suc.prems have b: "i \<le> INT_MAX" "\<not> INT_MAX \<le> i" "nat i < length_v v"
    "0 \<le> i + 1" "nat (i + 1) \<le> length_v v"
    by (simp_all add: nat_add_distrib)
  from sort_inner_in_range [OF Suc.prems(1,2) b(3,4,5)]
  obtain m where m: "sort_inner v compare i (i + 1) = Inr m" "0 \<le> m" "nat m < length_v v"
    by blast
  from swap_elems_mset [OF Suc.prems(1,2) b(3) m(2,3)]
  obtain v1 where v1: "swap_elems v i m = Inr v1" "vector_ok v1" "elem_size v1 = elem_size v"
    "length_v v1 = length_v v" "capacity v1 = capacity v" "mset (elems v1) = mset (elems v)"
    by blast
  have "n = length_v v1 - 1 - nat (i + 1)" "1 \<le> length_v v1" "nat (i + 1) \<le> length_v v1 - 1"
    using Suc.hyps(2) Suc.prems lt v1(4) by (simp_all add: nat_add_distrib)
  from Suc.hyps(1) [OF this(1) v1(2) b(4) this(2,3)]
  obtain v' where v': "sort_outer v1 compare (i + 1) = Inr v'" "vector_ok v'"
    "elem_size v' = elem_size v1" "length_v v' = length_v v1" "capacity v' = capacity v1"
    "mset (elems v') = mset (elems v1)"
    by blast
  have "size_t_of_int i < size_t_wrap (length_v v + 2 ^ 64 - 1)"
    using w lt b Suc.prems by (simp add: size_t_of_int_nat)
  then have "sort_outer v compare i = Inr v'"
    using b(2) m(1) v1(1) v'(1) by (subst sort_outer.simps) simp
  with v' v1 show ?case by simp
qed

text \<open>
  C10: for every well-formed vector of length at least 1 and every comparison function,
  \<^verbatim>\<open>sort_vector\<close> returns normally, leaves length, capacity and element size unchanged,
  and the multiset of the first \<open>length\<close> elements is the same before and after.
\<close>

theorem sort_vector_permutes:
  assumes "vector_ok v" "1 \<le> length_v v"
  shows "\<exists>v'. sort_vector v compare = Inr v' \<and> length_v v' = length_v v
           \<and> capacity v' = capacity v \<and> elem_size v' = elem_size v
           \<and> mset (elems v') = mset (elems v)"
  using sort_outer_mset [OF assms(1) _ assms(2), of 0 compare]
  by (auto simp add: sort_vector_def)


theorem sort_vector_permutes_witness:
  "vector_ok sample_bytes \<and> 1 \<le> length_v sample_bytes
   \<and> sort_vector sample_bytes descending
       = Inr \<lparr>array = [9, 8, 7, 0], elem_size = 1, length_v = 3, capacity = 4\<rparr>"
proof -
  have h: "vector_ok sample_bytes" "1 \<le> length_v sample_bytes"
    by (simp_all add: vector_ok_def sample_bytes_def INT_MAX_def)
  have "sort_vector sample_bytes descending
       = Inr \<lparr>array = [9, 8, 7, 0], elem_size = 1, length_v = 3, capacity = 4\<rparr>"
    by (simp add: sort_vector_def sort_outer.simps sort_inner.simps run_defs descending_def
        int_of_bytes_def sample_bytes_def)
  with h sort_vector_permutes [OF h] show ?thesis by simp
qed

section \<open>Shared elements of two vectors\<close>

lemma read_slot:
  assumes "vector_ok v" "0 \<le> i" "i \<le> INT_MAX" "nat i < capacity v"
  shows "mem_read (array v) (get_elem v i) (elem_size v) = Inr (slot v (nat i))"
  using deref_slot [OF assms] by (simp add: deref_def)

lemma any_shared_inner_spec:
  assumes ok1: "vector_ok vector1" and ok2: "vector_ok vector2"
    and es: "elem_size vector1 = elem_size vector2"
    and i: "0 \<le> i" "nat i < length_v vector1"
  shows "0 \<le> j \<Longrightarrow> nat j \<le> length_v vector2 \<Longrightarrow>
         any_shared_inner vector1 vector2 i j
           = Inr (\<exists>k. nat j \<le> k \<and> k < length_v vector2 \<and> slot vector1 (nat i) = slot vector2 k)"
proof (induction "length_v vector2 - nat j" arbitrary: j)
  case 0
  then have "nat j = length_v vector2" by simp
  moreover from ok2 0 have "j \<le> INT_MAX" by (auto simp add: vector_ok_def)
  ultimately have "size_t_of_int j = length_v vector2" using 0 by (simp add: size_t_of_int_nat)
  then have "any_shared_inner vector1 vector2 i j = Inr False"
    by (subst any_shared_inner.simps) simp
  with \<open>nat j = length_v vector2\<close> show ?case by simp
next
  case (Suc n)
  then have lt: "nat j < length_v vector2" by simp
  with ok2 Suc.prems have bj: "j \<le> INT_MAX" "nat j < capacity vector2" "\<not> INT_MAX \<le> j"
    by (auto simp add: vector_ok_def)
  from ok1 i have bi: "i \<le> INT_MAX" "nat i < capacity vector1"
    by (auto simp add: vector_ok_def)
  have r1: "mem_read (array vector1) (get_elem vector1 i) (elem_size vector1)
              = Inr (slot vector1 (nat i))"
    using ok1 i(1) bi by (rule read_slot)
  have r2: "mem_read (array vector2) (get_elem vector2 j) (elem_size vector1)
              = Inr (slot vector2 (nat j))"
    using read_slot [OF ok2 Suc.prems(1) bj(1,2)] es by simp
  have "size_t_of_int j < length_v vector2"
    using lt bj Suc.prems by (simp add: size_t_of_int_nat)
  then have step: "any_shared_inner vector1 vector2 i j
      = (if slot vector1 (nat i) = slot vector2 (nat j) then Inr True
         else any_shared_inner vector1 vector2 i (j + 1))"
    using r1 r2 bj(3) by (subst any_shared_inner.simps) simp
  show ?case
  proof (cases "slot vector1 (nat i) = slot vector2 (nat j)")
    case True
    with step lt show ?thesis by auto
  next
    case False
    have "n = length_v vector2 - nat (j + 1)" "0 \<le> j + 1" "nat (j + 1) \<le> length_v vector2"
      using Suc.hyps(2) Suc.prems lt by (simp_all add: nat_add_distrib)
    from Suc.hyps(1) [OF this]
    have ih: "any_shared_inner vector1 vector2 i (j + 1)
        = Inr (\<exists>k. nat (j + 1) \<le> k \<and> k < length_v vector2
                  \<and> slot vector1 (nat i) = slot vector2 k)" .
    have "(\<exists>k. nat (j + 1) \<le> k \<and> k < length_v vector2 \<and> slot vector1 (nat i) = slot vector2 k)
        \<longleftrightarrow> (\<exists>k. nat j \<le> k \<and> k < length_v vector2 \<and> slot vector1 (nat i) = slot vector2 k)"
    proof
      assume "\<exists>k. nat (j + 1) \<le> k \<and> k < length_v vector2 \<and> slot vector1 (nat i) = slot vector2 k"
      then obtain k where "nat (j + 1) \<le> k" "k < length_v vector2"
        "slot vector1 (nat i) = slot vector2 k" by blast
      moreover from this(1) have "nat j \<le> k" by simp
      ultimately show "\<exists>k. nat j \<le> k \<and> k < length_v vector2
          \<and> slot vector1 (nat i) = slot vector2 k" by blast
    next
      assume "\<exists>k. nat j \<le> k \<and> k < length_v vector2 \<and> slot vector1 (nat i) = slot vector2 k"
      then obtain k where k: "nat j \<le> k" "k < length_v vector2"
        "slot vector1 (nat i) = slot vector2 k" by blast
      with False have "k \<noteq> nat j" by auto
      with k(1) Suc.prems(1) have "nat (j + 1) \<le> k" by (simp add: nat_add_distrib)
      with k show "\<exists>k. nat (j + 1) \<le> k \<and> k < length_v vector2
          \<and> slot vector1 (nat i) = slot vector2 k" by blast
    qed
    with step False ih show ?thesis by simp
  qed
qed

lemma any_shared_outer_spec:
  assumes ok1: "vector_ok vector1" and ok2: "vector_ok vector2"
    and es: "elem_size vector1 = elem_size vector2"
  shows "0 \<le> i \<Longrightarrow> nat i \<le> length_v vector1 \<Longrightarrow>
         any_shared_outer vector1 vector2 i
           = Inr (\<exists>a. nat i \<le> a \<and> a < length_v vector1
                   \<and> (\<exists>k<length_v vector2. slot vector1 a = slot vector2 k))"
proof (induction "length_v vector1 - nat i" arbitrary: i)
  case 0
  then have "nat i = length_v vector1" by simp
  moreover from ok1 0 have "i \<le> INT_MAX" by (auto simp add: vector_ok_def)
  ultimately have "size_t_of_int i = length_v vector1" using 0 by (simp add: size_t_of_int_nat)
  then have "any_shared_outer vector1 vector2 i = Inr False"
    by (subst any_shared_outer.simps) simp
  with \<open>nat i = length_v vector1\<close> show ?case by simp
next
  case (Suc n)
  then have lt: "nat i < length_v vector1" by simp
  with ok1 Suc.prems have bi: "i \<le> INT_MAX" "\<not> INT_MAX \<le> i"
    by (auto simp add: vector_ok_def)
  define found where "found \<longleftrightarrow> (\<exists>k<length_v vector2. slot vector1 (nat i) = slot vector2 k)"
  have inner: "any_shared_inner vector1 vector2 i 0 = Inr found"
    using any_shared_inner_spec [OF ok1 ok2 es Suc.prems(1) lt, of 0]
    by (simp add: found_def)
  have "size_t_of_int i < length_v vector1"
    using lt bi Suc.prems by (simp add: size_t_of_int_nat)
  then have step: "any_shared_outer vector1 vector2 i
      = (if found then Inr True else any_shared_outer vector1 vector2 (i + 1))"
    using inner bi(2) by (subst any_shared_outer.simps) simp
  show ?case
  proof (cases found)
    case True
    with step lt show ?thesis by (auto simp add: found_def)
  next
    case False
    have "n = length_v vector1 - nat (i + 1)" "0 \<le> i + 1" "nat (i + 1) \<le> length_v vector1"
      using Suc.hyps(2) Suc.prems lt by (simp_all add: nat_add_distrib)
    from Suc.hyps(1) [OF this]
    have ih: "any_shared_outer vector1 vector2 (i + 1)
        = Inr (\<exists>a. nat (i + 1) \<le> a \<and> a < length_v vector1
                \<and> (\<exists>k<length_v vector2. slot vector1 a = slot vector2 k))" .
    have "(\<exists>a. nat (i + 1) \<le> a \<and> a < length_v vector1
                \<and> (\<exists>k<length_v vector2. slot vector1 a = slot vector2 k))
        \<longleftrightarrow> (\<exists>a. nat i \<le> a \<and> a < length_v vector1
                \<and> (\<exists>k<length_v vector2. slot vector1 a = slot vector2 k))"
    proof
      assume "\<exists>a. nat (i + 1) \<le> a \<and> a < length_v vector1
                \<and> (\<exists>k<length_v vector2. slot vector1 a = slot vector2 k)"
      then obtain a where "nat (i + 1) \<le> a" "a < length_v vector1"
        "\<exists>k<length_v vector2. slot vector1 a = slot vector2 k" by blast
      moreover from this(1) have "nat i \<le> a" by simp
      ultimately show "\<exists>a. nat i \<le> a \<and> a < length_v vector1
                \<and> (\<exists>k<length_v vector2. slot vector1 a = slot vector2 k)" by blast
    next
      assume "\<exists>a. nat i \<le> a \<and> a < length_v vector1
                \<and> (\<exists>k<length_v vector2. slot vector1 a = slot vector2 k)"
      then obtain a where a: "nat i \<le> a" "a < length_v vector1"
        "\<exists>k<length_v vector2. slot vector1 a = slot vector2 k" by blast
      with False have "a \<noteq> nat i" by (auto simp add: found_def)
      with a(1) Suc.prems(1) have "nat (i + 1) \<le> a" by (simp add: nat_add_distrib)
      with a show "\<exists>a. nat (i + 1) \<le> a \<and> a < length_v vector1
                \<and> (\<exists>k<length_v vector2. slot vector1 a = slot vector2 k)" by blast
    qed
    with step False ih show ?thesis by simp
  qed
qed

text \<open>
  C6: for every two well-formed vectors with equal element size, \<^verbatim>\<open>any_elems_shared\<close>
  reports nothing and returns the disjunction, over all pairs of an index \<open>i\<close> below the
  length of the first and an index \<open>j\<close> below the length of the second, of the equality
  of the two slots' bytes; the result is the same with the arguments exchanged.
\<close>

theorem any_elems_shared_symmetric:
  assumes "vector_ok a" "vector_ok b" "elem_size a = elem_size b"
  shows "any_elems_shared a b
           = ([], Inr (\<exists>i<length_v a. \<exists>j<length_v b. slot a i = slot b j))
       \<and> any_elems_shared a b = any_elems_shared b a"
proof -
  have ab: "any_elems_shared a b
           = ([], Inr (\<exists>i<length_v a. \<exists>j<length_v b. slot a i = slot b j))"
    using any_shared_outer_spec [OF assms, of 0] assms(3) by (simp add: any_elems_shared_def)
  have "any_elems_shared b a
           = ([], Inr (\<exists>j<length_v b. \<exists>i<length_v a. slot b j = slot a i))"
    using any_shared_outer_spec [OF assms(2,1) assms(3) [symmetric], of 0] assms(3)
    by (simp add: any_elems_shared_def)
  also have "(\<exists>j<length_v b. \<exists>i<length_v a. slot b j = slot a i)
      \<longleftrightarrow> (\<exists>i<length_v a. \<exists>j<length_v b. slot a i = slot b j)"
    by (auto intro: sym)
  finally show ?thesis using ab by simp
qed

theorem any_elems_shared_symmetric_witness:
  "vector_ok sample_bytes \<and> vector_ok sample_other
   \<and> elem_size sample_bytes = elem_size sample_other
   \<and> any_elems_shared sample_bytes sample_other = ([], Inr True)
   \<and> any_elems_shared sample_other sample_bytes = ([], Inr True)"
proof -
  have h: "vector_ok sample_bytes" "vector_ok sample_other"
    "elem_size sample_bytes = elem_size sample_other"
    by (simp_all add: vector_ok_def sample_bytes_def sample_other_def INT_MAX_def)
  have "any_elems_shared sample_bytes sample_other = ([], Inr True)"
    by (simp add: any_elems_shared_def any_shared_outer.simps any_shared_inner.simps
        mem_read_def get_elem_def size_t_of_int_def size_t_wrap_def INT_MAX_def
        sample_bytes_def sample_other_def)
  with h any_elems_shared_symmetric [OF h] show ?thesis by simp
qed

section \<open>Appending\<close>

























section \<open>The scenario on five integers\<close>

lemma bytes_of_small:
  "bytes_of_int 1 = [1,0,0,0]" "bytes_of_int 2 = [2,0,0,0]" "bytes_of_int 3 = [3,0,0,0]"
  "bytes_of_int 4 = [4,0,0,0]" "bytes_of_int 5 = [5,0,0,0]"
  by (simp_all add: bytes_of_int_def upt_rec)

lemma create_vector_16:
  assumes "ceil_log2 16 = 4"
  shows "create_vector ceil_log2 4 = Inr fresh16"
  using assms
  by (simp add: create_vector_def create_vector_with_capacity_def next_pow_2_def
      pow_2_size_t_def calloc_def int_of_size_t_def fresh16_def)

lemma push_one_to_five: "push_all realloc fresh16 one_to_five = Inr five"
  by (simp add: one_to_five_def fresh16_def five_def push_back_def run_defs bytes_of_small)

lemma sort_five:
  assumes "\<And>a b. compare a b = 1 \<longleftrightarrow> int_of_bytes a < int_of_bytes b"
  shows "sort_vector five compare = Inr five_sorted"
  by (simp add: sort_vector_def sort_outer.simps sort_inner.simps run_defs five_def
      five_sorted_def assms int_of_bytes_def)

lemma remove_third: "remove_elem five_sorted 2 = Inr five_removed"
  by (simp add: remove_elem_def remove_loop.simps run_defs five_sorted_def five_removed_def)

lemma five_contents:
  "length_v five = 5" "capacity five = 16"
  "int_of_bytes (slot five 0) = 1" "int_of_bytes (slot five 4) = 5"
  "map int_of_bytes (elems five_sorted) = [5, 4, 3, 2, 1]"
  "map int_of_bytes (elems five_removed) = [5, 4, 2, 1]" "length_v five_removed = 4"
  by (simp_all add: five_def five_sorted_def five_removed_def slot_def elems_def
      int_of_bytes_def upt_rec)

text \<open>
  C2: the scenario on 4-byte integers. Provided the C library computes 4 for
  \<^verbatim>\<open>ceil(log(16) / log(2))\<close>, \<^verbatim>\<open>create_vector\<close> yields capacity 16; appending 1, 2, 3, 4, 5
  yields length 5, capacity 16, 1 at index 0 and 5 at index 4; sorting with any comparator
  that returns 1 exactly when its first argument is numerically less than its second
  yields 5, 4, 3, 2, 1; removing index 2 then yields 5, 4, 2, 1 and length 4.
\<close>

theorem five_integers_scenario:
  assumes "ceil_log2 16 = 4"
    and "\<forall>a b. compare a b = 1 \<longleftrightarrow> int_of_bytes a < int_of_bytes b"
  shows "create_vector ceil_log2 4 = Inr fresh16
       \<and> push_all realloc fresh16 one_to_five = Inr five
       \<and> length_v five = 5 \<and> capacity five = 16
       \<and> int_of_bytes (slot five 0) = 1 \<and> int_of_bytes (slot five 4) = 5
       \<and> sort_vector five compare = Inr five_sorted
       \<and> map int_of_bytes (elems five_sorted) = [5, 4, 3, 2, 1]
       \<and> remove_elem five_sorted 2 = Inr five_removed
       \<and> map int_of_bytes (elems five_removed) = [5, 4, 2, 1]
       \<and> length_v five_removed = 4"
  using assms create_vector_16 [of ceil_log2] push_one_to_five [of realloc]
    sort_five [of compare] remove_third five_contents
  by simp

theorem five_integers_scenario_witness:
  "exact_ceil_log2 16 = 4
   \<and> (\<forall>a b. descending a b = 1 \<longleftrightarrow> int_of_bytes a < int_of_bytes b)
   \<and> create_vector exact_ceil_log2 4 = Inr fresh16
   \<and> push_all zero_fill fresh16 one_to_five = Inr five
   \<and> sort_vector five descending = Inr five_sorted
   \<and> remove_elem five_sorted 2 = Inr five_removed"
proof -
  have h: "exact_ceil_log2 16 = 4"
    "\<forall>a b. descending a b = 1 \<longleftrightarrow> int_of_bytes a < int_of_bytes b"
    by (simp_all add: exact_ceil_log2_def upt_rec descending_def)
  from h five_integers_scenario [of exact_ceil_log2 descending zero_fill] show ?thesis by simp
qed

end
